theory Spec2Isabelle
  imports Main "HOL-Library.Sublist" "HOL-Library.Word"
begin

section \<open>Permission checking utilities of core-entity (src/lib/permissions.ts)\<close>

text \<open>
  The utilities are pure functions over arrays of permission codes. A JavaScript string
  is a sequence of 16-bit code units, and an array of strings a list of them. \<open>cu\<close>
  is the code unit of a Latin-1 character and \<open>js\<close> the string of a literal, so that
  \<open>js ''users:*''\<close> is the JavaScript string \<^verbatim>\<open>"users:*"\<close>.
\<close>

type_synonym code_unit = "16 word"
type_synonym jsstring = "code_unit list"

definition cu :: "char \<Rightarrow> code_unit" where
  "cu c = of_nat (of_char c)"

definition js :: "string \<Rightarrow> jsstring" where
  "js s = map cu s"

subsection \<open>The built-ins the utilities call\<close>

text \<open>\<^verbatim>\<open>Array.prototype.includes\<close>: a left-to-right scan comparing by value.\<close>

primrec array_includes :: "'a list \<Rightarrow> 'a \<Rightarrow> bool" where
  "array_includes [] x = False"
| "array_includes (y # ys) x = (if y = x then True else array_includes ys x)"

text \<open>\<^verbatim>\<open>Array.prototype.some\<close> and \<^verbatim>\<open>Array.prototype.every\<close>, with a pure callback.\<close>

primrec array_some :: "('a \<Rightarrow> bool) \<Rightarrow> 'a list \<Rightarrow> bool" where
  "array_some f [] = False"
| "array_some f (y # ys) = (if f y then True else array_some f ys)"

primrec array_every :: "('a \<Rightarrow> bool) \<Rightarrow> 'a list \<Rightarrow> bool" where
  "array_every f [] = True"
| "array_every f (y # ys) = (if f y then array_every f ys else False)"

text \<open>\<^verbatim>\<open>String.prototype.includes\<close>: does the search string occur somewhere in the string.\<close>

primrec string_includes :: "jsstring \<Rightarrow> jsstring \<Rightarrow> bool" where
  "string_includes [] sub = (sub = [])"
| "string_includes (c # cs) sub =
     (if prefix sub (c # cs) then True else string_includes cs sub)"

text \<open>
  \<^verbatim>\<open>String.prototype.split\<close> with a one-character separator: the pieces between the
  separators, empty pieces kept; the empty string splits into one empty piece.
  \<open>cur\<close> holds the piece being read, reversed.
\<close>

primrec split_from :: "code_unit \<Rightarrow> jsstring \<Rightarrow> jsstring \<Rightarrow> jsstring list" where
  "split_from sep cur [] = [rev cur]"
| "split_from sep cur (c # cs) =
     (if c = sep then rev cur # split_from sep [] cs else split_from sep (c # cur) cs)"

definition string_split :: "jsstring \<Rightarrow> code_unit \<Rightarrow> jsstring list" where
  "string_split s sep = split_from sep [] s"

text \<open>
  \<^verbatim>\<open>pattern.replace(/\*/g, '.*')\<close>: every \<open>*\<close> of the pattern becomes the two
  characters \<open>.*\<close>; every other character is copied as it is.
\<close>

primrec replace_stars :: "jsstring \<Rightarrow> jsstring" where
  "replace_stars [] = []"
| "replace_stars (c # cs) =
     (if c = cu CHR ''*'' then js ''.*'' @ replace_stars cs else c # replace_stars cs)"

subsection \<open>Regular expressions: \<^verbatim>\<open>new RegExp(source)\<close> and \<^verbatim>\<open>regex.test(string)\<close>\<close>

text \<open>
  The utilities call the constructor with a source and no flags, so a pattern character
  is one code unit, and the grammar is the one of web browsers and Node.js (the
  language definition with its annex B). The constructor throws a
  \<^verbatim>\<open>SyntaxError\<close> for a source that is not a regular expression.

  The syntax modelled here: the assertions \<open>^\<close> and \<open>$\<close>, the dot, alternatives
  \<open>|\<close>, groups \<open>( )\<close> and \<open>(?: )\<close>, the quantifiers \<open>* + ?\<close> and
  \<open>{n} {n,} {n,m}\<close> with their lazy forms, a backslash before a syntax character or
  \<open>/\<close>, and every other character standing for itself; among these are \<open>]\<close>,
  \<open>}\<close> and a \<open>{\<close> that does not start a quantifier. For a source with anything
  else (a character class, another escape, a group that starts with \<open>(?\<close> other
  than \<open>(?:\<close>) the result is the one of the engine of the host, which is a
  parameter: its constructor \<open>host_new\<close> and its test \<open>host_test\<close>.
\<close>

datatype error = SyntaxError

datatype regex =
    REmpty
  | RChar code_unit
  | RDot
  | RStart
  | REnd
  | RSeq regex regex
  | RAlt regex regex
  | RRepeat regex nat "nat option"

datatype 'r RegExp = Modelled regex | Host 'r

text \<open>
  Without the \<open>s\<close> flag the dot matches every character but a line terminator: line
  feed, carriage return, line separator (U+2028) and paragraph separator (U+2029).
\<close>

definition isLineTerminator :: "code_unit \<Rightarrow> bool" where
  "isLineTerminator c = (c = cu CHR 0x0A \<or> c = cu CHR 0x0D \<or> c = 0x2028 \<or> c = 0x2029)"

text \<open>The syntax characters of a pattern; \<open>CHR 0x5C\<close> is the backslash.\<close>

definition isSyntaxCharacter :: "code_unit \<Rightarrow> bool" where
  "isSyntaxCharacter c =
     (c = cu CHR ''^'' \<or> c = cu CHR ''$'' \<or> c = cu CHR 0x5C \<or> c = cu CHR ''.'' \<or>
      c = cu CHR ''*'' \<or> c = cu CHR ''+'' \<or> c = cu CHR ''?'' \<or> c = cu CHR ''('' \<or>
      c = cu CHR '')'' \<or> c = cu CHR ''['' \<or> c = cu CHR '']'' \<or> c = cu CHR ''{'' \<or>
      c = cu CHR ''}'' \<or> c = cu CHR ''|'')"

definition isDecimalDigit :: "code_unit \<Rightarrow> bool" where
  "isDecimalDigit c = (cu CHR ''0'' \<le> c \<and> c \<le> cu CHR ''9'')"

text \<open>The number a run of decimal digits stands for.\<close>

definition MV :: "jsstring \<Rightarrow> nat" where
  "MV ds = foldl (\<lambda>v d. 10 * v + (unat d - unat (cu CHR ''0''))) 0 ds"

text \<open>
  Matching follows the language definition: a matcher takes a state (the index reached
  and the input from there on) and a continuation that matches the rest of the pattern,
  and answers whether the whole succeeds. Without back references and look-around the
  search tries every choice, and \<^verbatim>\<open>test\<close> only asks whether a match exists, so the
  answer is a \<^typ>\<open>bool\<close>, captures are not kept, and a lazy quantifier is its
  greedy one.
\<close>

type_synonym mstate = "nat \<times> jsstring"
type_synonym continuation = "mstate \<Rightarrow> bool"

text \<open>
  The loop of a quantifier from \<open>lo\<close> to \<open>hi\<close> repetitions (\<open>None\<close>: no upper
  bound): once the minimum is reached, an iteration that consumed nothing is refused.
  So every iteration lowers the minimum or consumes a character and the loop ends on
  its own; \<open>n\<close> bounds the iterations for the definition to be total, and
  \<open>repeat_matcher_bound\<close> below shows that the bound used, one more than the minimum
  plus the length of the remaining input, is never reached.
\<close>

primrec repeat_matcher ::
  "(mstate \<Rightarrow> continuation \<Rightarrow> bool) \<Rightarrow> nat \<Rightarrow> nat \<Rightarrow> nat option \<Rightarrow> mstate \<Rightarrow>
   continuation \<Rightarrow> bool" where
  "repeat_matcher m 0 lo hi x c = c x"
| "repeat_matcher m (Suc n) lo hi x c =
     (if hi = Some 0 then c x
      else if lo \<noteq> 0 then
        m x (\<lambda>y. repeat_matcher m n (lo - 1) (map_option (\<lambda>k. k - 1) hi) y c)
      else if m x (\<lambda>y. if fst y = fst x then False
                       else repeat_matcher m n 0 (map_option (\<lambda>k. k - 1) hi) y c)
        then True
      else c x)"

primrec matcher :: "regex \<Rightarrow> mstate \<Rightarrow> continuation \<Rightarrow> bool" where
  "matcher REmpty x c = c x"
| "matcher (RChar ch) x c =
     (case snd x of [] \<Rightarrow> False
      | d # rest \<Rightarrow> if d = ch then c (Suc (fst x), rest) else False)"
| "matcher RDot x c =
     (case snd x of [] \<Rightarrow> False
      | d # rest \<Rightarrow> if isLineTerminator d then False else c (Suc (fst x), rest))"
| "matcher RStart x c = (if fst x = 0 then c x else False)"
| "matcher REnd x c = (if snd x = [] then c x else False)"
| "matcher (RSeq r1 r2) x c = matcher r1 x (\<lambda>y. matcher r2 y c)"
| "matcher (RAlt r1 r2) x c = (if matcher r1 x c then True else matcher r2 x c)"
| "matcher (RRepeat r lo hi) x c =
     repeat_matcher (matcher r) (Suc (lo + length (snd x))) lo hi x c"

text \<open>
  \<^verbatim>\<open>test\<close> on a regular expression without the \<open>g\<close> and \<open>y\<close> flags: try a match
  at index 0, then at every later index up to the end of the string.
\<close>

fun exec_from :: "regex \<Rightarrow> nat \<Rightarrow> jsstring \<Rightarrow> bool" where
  "exec_from r lastIndex [] = matcher r (lastIndex, []) (\<lambda>y. True)"
| "exec_from r lastIndex (d # rest) =
     (if matcher r (lastIndex, d # rest) (\<lambda>y. True) then True
      else exec_from r (Suc lastIndex) rest)"

text \<open>
  Reading the source, left to right. A frame holds the disjunction being read: the
  alternatives already closed by a \<open>|\<close> and the terms of the current one, both latest
  first; the stack holds the frames of the groups still open. \<open>prev\<close> says what a
  quantifier may follow: nothing (at the start of an alternative and after an
  assertion or a lazy mark), an atom, or a quantified atom (where only the lazy mark
  \<open>?\<close> may follow).
\<close>

datatype prev = NoAtom | Atom | Quantified

record frame =
  alternatives :: "regex list"
  terms :: "regex list"

definition empty_frame :: frame where
  "empty_frame = \<lparr>alternatives = [], terms = []\<rparr>"

definition add_term :: "regex \<Rightarrow> frame \<Rightarrow> frame" where
  "add_term t f = f\<lparr>terms := t # terms f\<rparr>"

definition quantify :: "nat \<Rightarrow> nat option \<Rightarrow> frame \<Rightarrow> frame" where
  "quantify lo hi f =
     (case terms f of [] \<Rightarrow> f | t # ts \<Rightarrow> f\<lparr>terms := RRepeat t lo hi # ts\<rparr>)"

definition seq_of :: "regex list \<Rightarrow> regex" where
  "seq_of ts = foldr RSeq ts REmpty"

definition disjunction :: "frame \<Rightarrow> regex" where
  "disjunction f = foldl (\<lambda>later a. RAlt a later) (seq_of (rev (terms f))) (alternatives f)"

definition next_alternative :: "frame \<Rightarrow> frame" where
  "next_alternative f = \<lparr>alternatives = seq_of (rev (terms f)) # alternatives f, terms = []\<rparr>"

text \<open>
  The text after a \<open>{\<close>, when it is the rest of a quantifier \<open>{n}\<close>, \<open>{n,}\<close> or
  \<open>{n,m}\<close>: the bounds, and the number of characters the quantifier takes after its
  \<open>{\<close>. \<open>next_is c s\<close>: the string \<open>s\<close> starts with the character \<open>c\<close>.
\<close>

definition next_is :: "code_unit \<Rightarrow> jsstring \<Rightarrow> bool" where
  "next_is c s = (case s of [] \<Rightarrow> False | d # _ \<Rightarrow> d = c)"

definition braced_quantifier :: "jsstring \<Rightarrow> (nat \<times> nat option \<times> nat) option" where
  "braced_quantifier cs =
     (let ds = takeWhile isDecimalDigit cs; r1 = dropWhile isDecimalDigit cs in
      if ds = [] then None
      else if next_is (cu CHR ''}'') r1 then Some (MV ds, Some (MV ds), length ds + 1)
      else if next_is (cu CHR '','') r1 then
        (let r2 = drop 1 r1; es = takeWhile isDecimalDigit r2; r3 = dropWhile isDecimalDigit r2 in
         if next_is (cu CHR ''}'') r2 then Some (MV ds, None, length ds + 2)
         else if es \<noteq> [] \<and> next_is (cu CHR ''}'') r3
           then Some (MV ds, Some (MV es), length ds + length es + 2)
         else None)
      else None)"

text \<open>
  The result of reading a source: the regular expression, a syntax error, or a source
  beyond the syntax modelled. \<open>skip\<close> counts the characters still ahead that belong to
  the construct just read.
\<close>

datatype parsed = Parsed regex | Invalid | Beyond

fun parse :: "frame list \<Rightarrow> frame \<Rightarrow> prev \<Rightarrow> nat \<Rightarrow> jsstring \<Rightarrow> parsed" where
  "parse stack f p skip [] = (if stack = [] then Parsed (disjunction f) else Invalid)"
| "parse stack f p (Suc skip) (ch # cs) = parse stack f p skip cs"
| "parse stack f p 0 (ch # cs) =
     (if ch = cu CHR ''^'' then parse stack (add_term RStart f) NoAtom 0 cs
      else if ch = cu CHR ''$'' then parse stack (add_term REnd f) NoAtom 0 cs
      else if ch = cu CHR ''.'' then parse stack (add_term RDot f) Atom 0 cs
      else if ch = cu CHR ''|'' then parse stack (next_alternative f) NoAtom 0 cs
      else if ch = cu CHR ''('' then
        (case cs of
           [] \<Rightarrow> Invalid
         | q # cs' \<Rightarrow>
             if q = cu CHR ''?'' then
               (case cs' of
                  [] \<Rightarrow> Beyond
                | k # _ \<Rightarrow>
                    if k = cu CHR '':'' then parse (f # stack) empty_frame NoAtom 2 cs
                    else Beyond)
             else parse (f # stack) empty_frame NoAtom 0 cs)
      else if ch = cu CHR '')'' then
        (case stack of
           [] \<Rightarrow> Invalid
         | g # stack' \<Rightarrow> parse stack' (add_term (disjunction f) g) Atom 0 cs)
      else if ch = cu CHR ''*'' then
        (case p of Atom \<Rightarrow> parse stack (quantify 0 None f) Quantified 0 cs
         | _ \<Rightarrow> Invalid)
      else if ch = cu CHR ''+'' then
        (case p of Atom \<Rightarrow> parse stack (quantify 1 None f) Quantified 0 cs
         | _ \<Rightarrow> Invalid)
      else if ch = cu CHR ''?'' then
        (case p of Atom \<Rightarrow> parse stack (quantify 0 (Some 1) f) Quantified 0 cs
         | Quantified \<Rightarrow> parse stack f NoAtom 0 cs
         | NoAtom \<Rightarrow> Invalid)
      else if ch = cu CHR ''{'' then
        (case braced_quantifier cs of
           None \<Rightarrow> parse stack (add_term (RChar ch) f) Atom 0 cs
         | Some (lo, hi, n) \<Rightarrow>
             (case p of
                Atom \<Rightarrow>
                  if (case hi of None \<Rightarrow> False | Some m \<Rightarrow> m < lo) then Invalid
                  else parse stack (quantify lo hi f) Quantified n cs
              | _ \<Rightarrow> Invalid))
      else if ch = cu CHR 0x5C then
        (case cs of
           [] \<Rightarrow> Invalid
         | e # _ \<Rightarrow>
             if isSyntaxCharacter e \<or> e = cu CHR ''/''
             then parse stack (add_term (RChar e) f) Atom 1 cs
             else Beyond)
      else if ch = cu CHR ''['' then Beyond
      else parse stack (add_term (RChar ch) f) Atom 0 cs)"

definition RegExp_new :: "(jsstring \<Rightarrow> error + 'r) \<Rightarrow> jsstring \<Rightarrow> error + 'r RegExp" where
  "RegExp_new host_new source =
     (case parse [] empty_frame NoAtom 0 source of
        Parsed r \<Rightarrow> Inr (Modelled r)
      | Invalid \<Rightarrow> Inl SyntaxError
      | Beyond \<Rightarrow> (case host_new source of Inl e \<Rightarrow> Inl e | Inr r \<Rightarrow> Inr (Host r)))"

definition RegExp_test :: "('r \<Rightarrow> jsstring \<Rightarrow> bool) \<Rightarrow> 'r RegExp \<Rightarrow> jsstring \<Rightarrow> bool" where
  "RegExp_test host_test regex s =
     (case regex of Modelled r \<Rightarrow> exec_from r 0 s | Host r \<Rightarrow> host_test r s)"

text \<open>
  \<open>host_new\<close> and \<open>host_test\<close> stand for the engine the program runs on, and
  every theorem below holds for all of them. To state a closed example, which needs a
  value for them, the following host has no syntax beyond the one modelled; the
  examples stay within the modelled syntax, where the host is not asked.
\<close>

definition plain_host_new :: "jsstring \<Rightarrow> error + unit" where
  "plain_host_new source = Inl SyntaxError"

definition plain_host_test :: "unit \<Rightarrow> jsstring \<Rightarrow> bool" where
  "plain_host_test r s = False"

subsection \<open>Exact, any-of and all-of checks\<close>

definition hasPermission :: "jsstring list \<Rightarrow> jsstring \<Rightarrow> bool" where
  "hasPermission userPermissions requiredPermission =
     array_includes userPermissions requiredPermission"

definition hasAnyPermission :: "jsstring list \<Rightarrow> jsstring list \<Rightarrow> bool" where
  "hasAnyPermission userPermissions requiredPermissions =
     array_some (\<lambda>permission. array_includes userPermissions permission) requiredPermissions"

definition hasAllPermissions :: "jsstring list \<Rightarrow> jsstring list \<Rightarrow> bool" where
  "hasAllPermissions userPermissions requiredPermissions =
     array_every (\<lambda>permission. array_includes userPermissions permission) requiredPermissions"

subsection \<open>Wildcard patterns\<close>

text \<open>
  The function as it is written, over the constructor and the test of the regular
  expression engine; a \<^verbatim>\<open>SyntaxError\<close> of the constructor leaves the function as
  the exception it is (\<open>Inl\<close>), before any permission is looked at.
\<close>

definition hasPermissionPattern_with ::
  "(jsstring \<Rightarrow> error + 'r) \<Rightarrow> ('r \<Rightarrow> jsstring \<Rightarrow> bool) \<Rightarrow> jsstring list \<Rightarrow> jsstring \<Rightarrow>
   error + bool" where
  "hasPermissionPattern_with new_RegExp test userPermissions pattern =
     (if string_includes pattern (js ''*'') then
        (let regexPattern = replace_stars pattern in
         case new_RegExp (js ''^'' @ regexPattern @ js ''$'') of
           Inl e \<Rightarrow> Inl e
         | Inr regex \<Rightarrow> Inr (array_some (\<lambda>permission. test regex permission) userPermissions))
      else Inr (array_includes userPermissions pattern))"

definition hasPermissionPattern ::
  "(jsstring \<Rightarrow> error + 'r) \<Rightarrow> ('r \<Rightarrow> jsstring \<Rightarrow> bool) \<Rightarrow> jsstring list \<Rightarrow> jsstring \<Rightarrow>
   error + bool" where
  "hasPermissionPattern host_new host_test =
     hasPermissionPattern_with (RegExp_new host_new) (RegExp_test host_test)"

text \<open>
  The matcher the specification describes, in its words: the pattern is matched against
  the whole string, \<open>*\<close> stands for any substring, the empty one too, and every other
  character of the pattern for one character of the string. \<open>wild c\<close> says that a
  \<open>*\<close> may stand for \<open>c\<close>, and \<open>single p c\<close> that the pattern character \<open>p\<close>
  stands for \<open>c\<close>; in the specification a \<open>*\<close> stands for every character and a
  pattern character for itself only (\<open>literally\<close>).
\<close>

fun glob_match ::
  "(code_unit \<Rightarrow> bool) \<Rightarrow> (code_unit \<Rightarrow> code_unit \<Rightarrow> bool) \<Rightarrow> jsstring \<Rightarrow> jsstring \<Rightarrow> bool" where
  "glob_match wild single [] s = (s = [])"
| "glob_match wild single (p # ps) [] = (p = cu CHR ''*'' \<and> glob_match wild single ps [])"
| "glob_match wild single (p # ps) (c # cs) =
     (if p = cu CHR ''*''
      then glob_match wild single ps (c # cs) \<or> (wild c \<and> glob_match wild single (p # ps) cs)
      else single p c \<and> glob_match wild single ps cs)"

definition literally :: "code_unit \<Rightarrow> code_unit \<Rightarrow> bool" where
  "literally p c = (c = p)"

text \<open>
  What the code makes of it: a \<open>*\<close> stands for the characters a dot matches, and a
  dot of the pattern, which is not escaped, for any one of them.
\<close>

definition notLineTerminator :: "code_unit \<Rightarrow> bool" where
  "notLineTerminator c = (\<not> isLineTerminator c)"

definition unescaped :: "code_unit \<Rightarrow> code_unit \<Rightarrow> bool" where
  "unescaped p c = (if p = cu CHR ''.'' then \<not> isLineTerminator c else c = p)"

text \<open>
  A pattern whose characters, the dot apart, are literal in the source it is compiled
  to: none of them is one of \<open>^ $ + ? ( ) [ |\<close> or the backslash, and no \<open>{\<close> of it
  starts a quantifier. \<open>glob_terms\<close> is the list of terms such a pattern is compiled to.
\<close>

primrec no_braced_quantifier :: "jsstring \<Rightarrow> bool" where
  "no_braced_quantifier [] = True"
| "no_braced_quantifier (c # cs) =
     ((if c = cu CHR ''{'' then braced_quantifier cs = None else True) \<and> no_braced_quantifier cs)"

definition literal_character :: "code_unit \<Rightarrow> bool" where
  "literal_character c =
     (c \<noteq> cu CHR ''^'' \<and> c \<noteq> cu CHR ''$'' \<and> c \<noteq> cu CHR 0x5C \<and> c \<noteq> cu CHR ''+'' \<and>
      c \<noteq> cu CHR ''?'' \<and> c \<noteq> cu CHR ''('' \<and> c \<noteq> cu CHR '')'' \<and> c \<noteq> cu CHR ''['' \<and>
      c \<noteq> cu CHR ''|'')"

definition literal_pattern :: "jsstring \<Rightarrow> bool" where
  "literal_pattern pattern = (list_all literal_character pattern \<and> no_braced_quantifier pattern)"

definition glob_terms :: "jsstring \<Rightarrow> regex list" where
  "glob_terms pattern =
     map (\<lambda>c. if c = cu CHR ''*'' then RRepeat RDot 0 None
              else if c = cu CHR ''.'' then RDot else RChar c) pattern"

text \<open>
  \<open>follows x y\<close>: state \<open>y\<close> can come after state \<open>x\<close> in a match of the same input
  (the index moved forward by what was consumed).
\<close>

definition follows :: "mstate \<Rightarrow> mstate \<Rightarrow> bool" where
  "follows x y =
     (length (snd y) \<le> length (snd x) \<and> fst y + length (snd y) = fst x + length (snd x))"

subsection \<open>Role levels\<close>

text \<open>The levels are integers (the role schema asks for an integer from 0 to 100).\<close>

definition hasRoleLevel :: "int \<Rightarrow> int \<Rightarrow> bool" where
  "hasRoleLevel userLevel requiredLevel = (userLevel \<ge> requiredLevel)"

subsection \<open>Parsing a permission code\<close>

record parsed_permission =
  resource :: jsstring
  action :: jsstring

text \<open>\<open>None\<close> is the \<^verbatim>\<open>null\<close> the function returns for a code it does not parse.\<close>

definition parsePermission :: "jsstring \<Rightarrow> parsed_permission option" where
  "parsePermission permissionCode =
     (let parts = string_split permissionCode (cu CHR '':'') in
      if length parts \<noteq> 2 then None
      else Some \<lparr>resource = parts ! 0, action = parts ! 1\<rparr>)"

text \<open>
  The shape the specification asks of a code, in its words: exactly two non-empty
  segments separated by a colon.
\<close>

definition two_nonempty_segments :: "jsstring \<Rightarrow> bool" where
  "two_nonempty_segments code =
     (count_list code (cu CHR '':'') = 1 \<and>
      takeWhile (\<lambda>c. c \<noteq> cu CHR '':'') code \<noteq> [] \<and>
      drop 1 (dropWhile (\<lambda>c. c \<noteq> cu CHR '':'') code) \<noteq> [])"

subsection \<open>The retry configuration of authentication calls (constants for entity management)\<close>

definition MAX_AUTH_RETRIES :: nat where
  "MAX_AUTH_RETRIES = 3"

definition AUTH_RETRY_BASE_DELAY_MS :: nat where
  "AUTH_RETRY_BASE_DELAY_MS = 1000"

section \<open>Properties\<close>

subsection \<open>Code units\<close>

lemma of_char_less_256: "(of_char c :: nat) < 256"
proof -
  have "(of_char c :: nat) mod 256 = of_char c" by (rule of_char_mod_256)
  moreover have "(of_char c :: nat) mod 256 < 256" by simp
  ultimately show ?thesis by simp
qed

lemma unat_cu [simp]: "unat (cu c) = of_char c"
proof -
  have "(of_char c :: nat) < 2 ^ 16" by (rule less_trans [OF of_char_less_256]) simp
  then show ?thesis by (simp add: cu_def unat_of_nat)
qed

lemma cu_eq_iff [simp]: "cu c = cu d \<longleftrightarrow> c = d"
proof
  assume "cu c = cu d"
  then have "unat (cu c) = unat (cu d)" by simp
  then have "(of_char c :: nat) = of_char d" by (simp only: unat_cu)
  then show "c = d" by simp
qed simp

lemma cu_le_iff [simp]: "cu c \<le> cu d \<longleftrightarrow> (of_char c :: nat) \<le> of_char d"
  by (simp add: word_le_nat_alt)

lemma cu_not_separator [simp]:
  "cu c \<noteq> 0x2028" "cu c \<noteq> 0x2029" "0x2028 \<noteq> cu c" "0x2029 \<noteq> cu c"
proof -
  have small: "(of_char c :: nat) < 256" by (rule of_char_less_256)
  have a: "cu c \<noteq> 0x2028"
  proof
    assume "cu c = 0x2028"
    then have "unat (cu c) = unat (0x2028 :: 16 word)" by (rule arg_cong)
    then have "(of_char c :: nat) = 8232" by simp
    with small show False by linarith
  qed
  have b: "cu c \<noteq> 0x2029"
  proof
    assume "cu c = 0x2029"
    then have "unat (cu c) = unat (0x2029 :: 16 word)" by (rule arg_cong)
    then have "(of_char c :: nat) = 8233" by simp
    with small show False by linarith
  qed
  from a b show "cu c \<noteq> 0x2028" "cu c \<noteq> 0x2029" "0x2028 \<noteq> cu c" "0x2029 \<noteq> cu c"
    by auto
qed

lemma js_Nil [simp]: "js [] = []"
  by (simp add: js_def)

lemma js_Cons [simp]: "js (c # cs) = cu c # js cs"
  by (simp add: js_def)

subsection \<open>The array built-ins as set operations\<close>

lemma array_includes_set: "array_includes xs x \<longleftrightarrow> x \<in> set xs"
  by (induction xs) auto

lemma array_some_set: "array_some f xs \<longleftrightarrow> (\<exists>x \<in> set xs. f x)"
  by (induction xs) auto

lemma array_every_set: "array_every f xs \<longleftrightarrow> (\<forall>x \<in> set xs. f x)"
  by (induction xs) auto

subsection \<open>Splitting at a separator\<close>

lemma length_split_from: "length (split_from sep cur s) = Suc (count_list s sep)"
  by (induction s arbitrary: cur) auto

lemma split_from_no_sep:
  "count_list s sep = 0 \<Longrightarrow> split_from sep cur s = [rev cur @ s]"
  by (induction s arbitrary: cur) (auto split: if_splits)

lemma split_from_one_sep:
  "count_list s sep = 1 \<Longrightarrow>
   split_from sep cur s =
     [rev cur @ takeWhile (\<lambda>c. c \<noteq> sep) s, drop 1 (dropWhile (\<lambda>c. c \<noteq> sep) s)]"
proof (induction s arbitrary: cur)
  case Nil
  then show ?case by simp
next
  case (Cons c cs)
  show ?case
  proof (cases "c = sep")
    case True
    with Cons.prems have "count_list cs sep = 0" by simp
    then have "split_from sep [] cs = [cs]" using split_from_no_sep [of cs sep "[]"] by simp
    with True show ?thesis by simp
  next
    case False
    with Cons.prems have "count_list cs sep = 1" by simp
    from Cons.IH [OF this, of "c # cur"] False show ?thesis by simp
  qed
qed

subsection \<open>Role levels and retry defaults\<close>

text \<open>
  C7: for every pair of integer levels, hasRoleLevel(userLevel, requiredLevel) is true
  exactly when userLevel >= requiredLevel; in particular hasRoleLevel(50, 60) is false.
\<close>

theorem hasRoleLevel_iff_ge:
  "(hasRoleLevel userLevel requiredLevel \<longleftrightarrow> userLevel \<ge> requiredLevel) \<and>
   hasRoleLevel 50 60 = False"
  by (simp add: hasRoleLevel_def)

text \<open>
  C9: the default retry configuration of authentication calls is 3 attempts in total and
  a base delay of 1000 milliseconds: MAX_AUTH_RETRIES is 3 and AUTH_RETRY_BASE_DELAY_MS
  is 1000.
\<close>

theorem auth_retry_defaults:
  "MAX_AUTH_RETRIES = 3 \<and> AUTH_RETRY_BASE_DELAY_MS = 1000"
  by (simp add: MAX_AUTH_RETRIES_def AUTH_RETRY_BASE_DELAY_MS_def)

subsection \<open>Any-of and all-of\<close>

text \<open>
  C5: hasAllPermissions(held, codes) is true exactly when every element of codes is an
  element of held; in particular hasAllPermissions(held, []) is true for every held.
\<close>

theorem hasAllPermissions_iff_subset:
  "(hasAllPermissions held codes \<longleftrightarrow> set codes \<subseteq> set held) \<and>
   hasAllPermissions held [] = True"
  by (auto simp: hasAllPermissions_def array_every_set array_includes_set)

text \<open>
  C6: hasAnyPermission(held, codes) is true exactly when codes and held have an element
  in common; in particular hasAnyPermission(held, []) is false for every held.
\<close>

theorem hasAnyPermission_iff_inter:
  "(hasAnyPermission held codes \<longleftrightarrow> set codes \<inter> set held \<noteq> {}) \<and>
   hasAnyPermission held [] = False"
  by (auto simp: hasAnyPermission_def array_some_set array_includes_set)

subsection \<open>Parsing\<close>

lemma parsePermission_one_colon:
  "count_list code (cu CHR '':'') = 1 \<Longrightarrow>
   parsePermission code =
     Some \<lparr>resource = takeWhile (\<lambda>c. c \<noteq> cu CHR '':'') code,
           action = drop 1 (dropWhile (\<lambda>c. c \<noteq> cu CHR '':'') code)\<rparr>"
  using split_from_one_sep [of code "cu CHR '':''" "[]"]
  by (simp add: parsePermission_def string_split_def)

lemma parsePermission_other:
  "count_list code (cu CHR '':'') \<noteq> 1 \<Longrightarrow> parsePermission code = None"
  by (simp add: parsePermission_def string_split_def length_split_from)

text \<open>
  C3: parsePermission("users:create") is {resource: "users", action: "create"},
  parsePermission("invalid") and parsePermission("a:b:c") are none; a code with exactly
  one colon parses into the text before and the text after the colon, and every other
  code gives the none sentinel (the function is total: it never throws).
\<close>

theorem parsePermission_examples:
  "parsePermission (js ''users:create'') =
     Some \<lparr>resource = js ''users'', action = js ''create''\<rparr> \<and>
   parsePermission (js ''invalid'') = None \<and>
   parsePermission (js ''a:b:c'') = None \<and>
   parsePermission code =
     (if count_list code (cu CHR '':'') = 1
      then Some \<lparr>resource = takeWhile (\<lambda>c. c \<noteq> cu CHR '':'') code,
                 action = drop 1 (dropWhile (\<lambda>c. c \<noteq> cu CHR '':'') code)\<rparr>
      else None)"
proof -
  have "parsePermission (js ''users:create'') =
      Some \<lparr>resource = js ''users'', action = js ''create''\<rparr>"
    by (simp add: parsePermission_def string_split_def)
  moreover have "parsePermission (js ''invalid'') = None"
    by (simp add: parsePermission_def string_split_def)
  moreover have "parsePermission (js ''a:b:c'') = None"
    by (simp add: parsePermission_def string_split_def)
  ultimately show ?thesis
    using parsePermission_one_colon [of code] parsePermission_other [of code] by simp
qed

text \<open>
  C2 as stated, that every code which is not two non-empty colon-separated segments
  fails to parse, does not hold: "a:" has an empty action segment and parses.
\<close>

theorem parsePermission_empty_segment_counterexample:
  "\<not> two_nonempty_segments (js ''a:'') \<and>
   parsePermission (js ''a:'') = Some \<lparr>resource = js ''a'', action = []\<rparr>"
  by (simp add: two_nonempty_segments_def parsePermission_def string_split_def)

text \<open>
  C2, amended: parsePermission returns the none sentinel exactly for the codes that do
  not contain exactly one colon (the codes that do not split into exactly two segments,
  empty or not); a code of two non-empty segments always parses.
\<close>

theorem parsePermission_none_iff:
  "(parsePermission code = None \<longleftrightarrow> count_list code (cu CHR '':'') \<noteq> 1) \<and>
   (two_nonempty_segments code \<longrightarrow> parsePermission code \<noteq> None)"
  using parsePermission_one_colon [of code] parsePermission_other [of code]
  by (auto simp: two_nonempty_segments_def)

theorem parsePermission_none_iff_witness:
  "two_nonempty_segments (js ''users:create'') \<and>
   parsePermission (js ''users:create'') \<noteq> None \<and>
   count_list (js ''a:b:c'') (cu CHR '':'') \<noteq> 1 \<and> parsePermission (js ''a:b:c'') = None"
  using parsePermission_none_iff [of "js ''users:create''"]
    parsePermission_none_iff [of "js ''a:b:c''"]
  by (simp add: two_nonempty_segments_def)

subsection \<open>Braced quantifiers and the replacement of the wildcards\<close>

lemma string_includes_star: "string_includes p [cu CHR ''*''] \<longleftrightarrow> cu CHR ''*'' \<in> set p"
  by (induction p) auto

lemma digit_not_special:
  assumes "isDecimalDigit c"
  shows "c \<noteq> cu CHR ''*''" "c \<noteq> cu CHR ''.''" "c \<noteq> cu CHR ''$''"
  using assms by (auto simp: isDecimalDigit_def)

lemma special_not_digit [simp]:
  "\<not> isDecimalDigit (cu CHR ''*'')" "\<not> isDecimalDigit (cu CHR ''.'')"
  "\<not> isDecimalDigit (cu CHR ''$'')"
  by (simp_all add: isDecimalDigit_def)

lemma takeWhile_digit_replace:
  "takeWhile isDecimalDigit (replace_stars cs @ cu CHR ''$'' # t) = takeWhile isDecimalDigit cs"
  by (induction cs) (auto dest: digit_not_special)

lemma dropWhile_digit_replace:
  "dropWhile isDecimalDigit (replace_stars cs @ cu CHR ''$'' # t) =
   replace_stars (dropWhile isDecimalDigit cs) @ cu CHR ''$'' # t"
  by (induction cs) (auto dest: digit_not_special)

lemma next_is_replace:
  assumes "c \<noteq> cu CHR ''*''" "c \<noteq> cu CHR ''.''" "c \<noteq> cu CHR ''$''"
  shows "next_is c (replace_stars s @ cu CHR ''$'' # t) = next_is c s"
  using assms by (cases s) (auto simp: next_is_def)

lemma drop_1_replace:
  "next_is (cu CHR '','') s \<Longrightarrow>
   drop 1 (replace_stars s @ cu CHR ''$'' # t) = replace_stars (drop 1 s) @ cu CHR ''$'' # t"
  by (cases s) (auto simp: next_is_def)

lemma braced_quantifier_replace:
  "braced_quantifier (replace_stars cs @ cu CHR ''$'' # t) = braced_quantifier cs"
proof -
  define r1 where "r1 = dropWhile isDecimalDigit cs"
  have close: "next_is (cu CHR ''}'') (replace_stars s @ cu CHR ''$'' # t) =
      next_is (cu CHR ''}'') s" for s
    by (rule next_is_replace) simp_all
  have comma: "next_is (cu CHR '','') (replace_stars s @ cu CHR ''$'' # t) =
      next_is (cu CHR '','') s" for s
    by (rule next_is_replace) simp_all
  show ?thesis
  proof (cases "next_is (cu CHR '','') r1")
    case False
    then show ?thesis
      unfolding r1_def
      by (simp add: braced_quantifier_def Let_def takeWhile_digit_replace
          dropWhile_digit_replace close comma)
  next
    case True
    then have "drop (Suc 0) (replace_stars r1 @ cu CHR ''$'' # t) =
        replace_stars (drop (Suc 0) r1) @ cu CHR ''$'' # t"
      using drop_1_replace [of r1 t] by simp
    with True show ?thesis
      unfolding r1_def
      by (simp add: braced_quantifier_def Let_def takeWhile_digit_replace
          dropWhile_digit_replace close comma)
  qed
qed

subsection \<open>Patterns that are compiled to literal terms, dots and wildcards\<close>

lemma parse_literal_char:
  assumes "literal_character c" "c \<noteq> cu CHR ''*''" "c \<noteq> cu CHR ''.''" "c \<noteq> cu CHR ''{''"
  shows "parse stack f pv 0 (c # cs) = parse stack (add_term (RChar c) f) Atom 0 cs"
  using assms by (simp add: literal_character_def)

lemma parse_open_brace:
  "braced_quantifier cs = None \<Longrightarrow>
   parse stack f pv 0 (cu CHR ''{'' # cs) = parse stack (add_term (RChar (cu CHR ''{'')) f) Atom 0 cs"
  by simp

lemma parse_dot:
  "parse stack f pv 0 (cu CHR ''.'' # cs) = parse stack (add_term RDot f) Atom 0 cs"
  by simp

lemma parse_dot_star:
  "parse stack f pv 0 (cu CHR ''.'' # cu CHR ''*'' # cs) =
   parse stack (add_term (RRepeat RDot 0 None) f) Quantified 0 cs"
  by (simp add: add_term_def quantify_def)

lemma parse_end:
  "parse [] f pv 0 [cu CHR ''$''] = Parsed (disjunction (add_term REnd f))"
  by simp

lemma parse_literal:
  "literal_pattern p \<Longrightarrow>
   parse [] f pv 0 (replace_stars p @ [cu CHR ''$'']) =
     Parsed (disjunction (f\<lparr>terms := REnd # rev (glob_terms p) @ terms f\<rparr>))"
proof (induction p arbitrary: f pv)
  case Nil
  show ?case using parse_end [of f pv] by (simp add: glob_terms_def add_term_def)
next
  case (Cons c p)
  from Cons.prems have rest: "literal_pattern p" and lit: "literal_character c"
    and unbraced: "c = cu CHR ''{'' \<Longrightarrow> braced_quantifier p = None"
    by (simp_all add: literal_pattern_def)
  let ?src = "replace_stars p @ [cu CHR ''$'']"
  have step: "parse [] (add_term t f) pv' 0 ?src =
      Parsed (disjunction (f\<lparr>terms := REnd # rev (glob_terms p) @ t # terms f\<rparr>))" for t pv'
    using Cons.IH [OF rest, of "add_term t f" pv'] by (simp add: add_term_def)
  consider (star) "c = cu CHR ''*''" | (dot) "c = cu CHR ''.''" | (brace) "c = cu CHR ''{''"
    | (other) "c \<noteq> cu CHR ''*''" "c \<noteq> cu CHR ''.''" "c \<noteq> cu CHR ''{''"
    by blast
  then show ?case
  proof cases
    case star
    have "parse [] f pv 0 (replace_stars (c # p) @ [cu CHR ''$'']) =
          parse [] (add_term (RRepeat RDot 0 None) f) Quantified 0 ?src"
      using star parse_dot_star [of "[]" f pv ?src] by simp
    then show ?thesis using star step by (simp add: glob_terms_def)
  next
    case dot
    have "parse [] f pv 0 (replace_stars (c # p) @ [cu CHR ''$'']) =
          parse [] (add_term RDot f) Atom 0 ?src"
      using dot parse_dot [of "[]" f pv ?src] by simp
    then show ?thesis using dot step by (simp add: glob_terms_def)
  next
    case brace
    from unbraced [OF this] have "braced_quantifier ?src = None"
      by (simp add: braced_quantifier_replace)
    then have "parse [] f pv 0 (replace_stars (c # p) @ [cu CHR ''$'']) =
          parse [] (add_term (RChar c) f) Atom 0 ?src"
      using \<open>c = cu CHR ''{''\<close> parse_open_brace [of ?src "[]" f pv] by simp
    then show ?thesis using \<open>c = cu CHR ''{''\<close> step by (simp add: glob_terms_def)
  next
    case other
    have "parse [] f pv 0 (replace_stars (c # p) @ [cu CHR ''$'']) =
          parse [] (add_term (RChar c) f) Atom 0 ?src"
      using other parse_literal_char [OF lit other, of "[]" f pv ?src] by simp
    then show ?thesis using other step by (simp add: glob_terms_def)
  qed
qed

lemma RegExp_new_literal:
  assumes "literal_pattern p"
  shows "RegExp_new host_new (js ''^'' @ replace_stars p @ js ''$'') =
         Inr (Modelled (seq_of (RStart # glob_terms p @ [REnd])))"
proof -
  have "parse [] empty_frame NoAtom 0 (js ''^'' @ replace_stars p @ js ''$'') =
        parse [] (add_term RStart empty_frame) NoAtom 0 (replace_stars p @ [cu CHR ''$''])"
    by simp
  also have "\<dots> = Parsed (disjunction ((add_term RStart empty_frame)
      \<lparr>terms := REnd # rev (glob_terms p) @ terms (add_term RStart empty_frame)\<rparr>))"
    by (rule parse_literal [OF assms])
  also have "\<dots> = Parsed (seq_of (RStart # glob_terms p @ [REnd]))"
    by (simp add: disjunction_def add_term_def empty_frame_def)
  finally show ?thesis by (simp add: RegExp_new_def)
qed

lemma matcher_seq_of_Cons:
  "matcher (seq_of (t # ts)) x c = matcher t x (\<lambda>y. matcher (seq_of ts) y c)"
  by (simp add: seq_of_def)

lemma matcher_seq_of_end:
  "matcher (seq_of [REnd]) (i, s) (\<lambda>y. True) = (s = [])"
  by (simp add: seq_of_def)

lemma repeat_dot:
  "repeat_matcher (matcher RDot) (Suc n) 0 None (i, s) c =
     (case s of [] \<Rightarrow> c (i, [])
      | d # rest \<Rightarrow>
          (notLineTerminator d \<and> repeat_matcher (matcher RDot) n 0 None (Suc i, rest) c) \<or>
          c (i, d # rest))"
  by (cases s) (auto simp: notLineTerminator_def)

lemma repeat_dot_glob:
  assumes tail: "\<And>i s. matcher (seq_of R) (i, s) (\<lambda>y. True) =
      glob_match notLineTerminator unescaped ps s"
  shows "length s \<le> n \<Longrightarrow>
     repeat_matcher (matcher RDot) (Suc n) 0 None (i, s) (\<lambda>y. matcher (seq_of R) y (\<lambda>y. True)) =
     glob_match notLineTerminator unescaped (cu CHR ''*'' # ps) s"
proof (induction s arbitrary: i n)
  case Nil
  show ?case using tail [of i "[]"] repeat_dot [of n i "[]"] by simp
next
  case (Cons d rest)
  then obtain n' where n: "n = Suc n'" and le: "length rest \<le> n'" by (cases n) auto
  have "repeat_matcher (matcher RDot) (Suc n') 0 None (Suc i, rest)
          (\<lambda>y. matcher (seq_of R) y (\<lambda>y. True)) =
        glob_match notLineTerminator unescaped (cu CHR ''*'' # ps) rest"
    by (rule Cons.IH [OF le])
  then have inner: "repeat_matcher (matcher RDot) n 0 None (Suc i, rest)
          (\<lambda>y. matcher (seq_of R) y (\<lambda>y. True)) =
        glob_match notLineTerminator unescaped (cu CHR ''*'' # ps) rest"
    by (simp only: n)
  have "repeat_matcher (matcher RDot) (Suc n) 0 None (i, d # rest)
          (\<lambda>y. matcher (seq_of R) y (\<lambda>y. True)) =
        ((notLineTerminator d \<and>
          repeat_matcher (matcher RDot) n 0 None (Suc i, rest)
            (\<lambda>y. matcher (seq_of R) y (\<lambda>y. True))) \<or>
         matcher (seq_of R) (i, d # rest) (\<lambda>y. True))"
    by (simp only: repeat_dot list.case)
  also have "\<dots> = ((notLineTerminator d \<and>
          glob_match notLineTerminator unescaped (cu CHR ''*'' # ps) rest) \<or>
         glob_match notLineTerminator unescaped ps (d # rest))"
    by (simp only: inner tail)
  also have "\<dots> = glob_match notLineTerminator unescaped (cu CHR ''*'' # ps) (d # rest)"
    by auto
  finally show ?case .
qed

lemma unescaped_dot: "unescaped (cu CHR ''.'') d = (\<not> isLineTerminator d)"
  by (simp add: unescaped_def)

lemma unescaped_other: "p \<noteq> cu CHR ''.'' \<Longrightarrow> unescaped p d = (d = p)"
  by (simp add: unescaped_def)

lemma matcher_glob:
  "matcher (seq_of (glob_terms p @ [REnd])) (i, s) (\<lambda>y. True) =
   glob_match notLineTerminator unescaped p s"
proof (induction p arbitrary: i s)
  case Nil
  show ?case using matcher_seq_of_end [of i s] by (simp add: glob_terms_def)
next
  case (Cons c p)
  let ?rest = "seq_of (glob_terms p @ [REnd])"
  consider (star) "c = cu CHR ''*''" | (dot) "c = cu CHR ''.''"
    | (other) "c \<noteq> cu CHR ''*''" "c \<noteq> cu CHR ''.''"
    by blast
  then show ?case
  proof cases
    case star
    have "matcher (seq_of (glob_terms (c # p) @ [REnd])) (i, s) (\<lambda>y. True) =
          repeat_matcher (matcher RDot) (Suc (length s)) 0 None (i, s)
            (\<lambda>y. matcher ?rest y (\<lambda>y. True))"
      using star by (simp add: glob_terms_def matcher_seq_of_Cons)
    also have "\<dots> = glob_match notLineTerminator unescaped (cu CHR ''*'' # p) s"
      by (rule repeat_dot_glob [where n = "length s"]) (simp_all add: Cons.IH)
    finally show ?thesis using star by simp
  next
    case dot
    have "matcher (seq_of (glob_terms (c # p) @ [REnd])) (i, s) (\<lambda>y. True) =
          (case s of [] \<Rightarrow> False
           | d # rest \<Rightarrow> \<not> isLineTerminator d \<and> matcher ?rest (Suc i, rest) (\<lambda>y. True))"
      using dot by (auto simp: glob_terms_def matcher_seq_of_Cons split: list.splits)
    also have "\<dots> = glob_match notLineTerminator unescaped (c # p) s"
      using dot by (cases s) (auto simp: Cons.IH unescaped_dot)
    finally show ?thesis .
  next
    case other
    have "matcher (seq_of (glob_terms (c # p) @ [REnd])) (i, s) (\<lambda>y. True) =
          (case s of [] \<Rightarrow> False
           | d # rest \<Rightarrow> d = c \<and> matcher ?rest (Suc i, rest) (\<lambda>y. True))"
      using other by (auto simp: glob_terms_def matcher_seq_of_Cons split: list.splits)
    also have "\<dots> = glob_match notLineTerminator unescaped (c # p) s"
      using other by (cases s) (auto simp: Cons.IH unescaped_other)
    finally show ?thesis .
  qed
qed

lemma exec_from_anchored_later:
  "0 < i \<Longrightarrow> exec_from (seq_of (RStart # ts)) i s = False"
  by (induction s arbitrary: i) (simp_all add: matcher_seq_of_Cons)

lemma exec_from_anchored:
  "exec_from (seq_of (RStart # ts)) 0 s = matcher (seq_of ts) (0, s) (\<lambda>y. True)"
  using exec_from_anchored_later [of "Suc 0" ts "tl s"]
  by (cases s) (simp_all add: matcher_seq_of_Cons)

lemma hasPermissionPattern_literal:
  assumes "string_includes pattern (js ''*'')" and "literal_pattern pattern"
  shows "hasPermissionPattern host_new host_test held pattern =
         Inr (array_some (glob_match notLineTerminator unescaped pattern) held)"
proof -
  have "RegExp_test host_test (Modelled (seq_of (RStart # glob_terms pattern @ [REnd]))) h =
        glob_match notLineTerminator unescaped pattern h" for h
    using exec_from_anchored [of "glob_terms pattern @ [REnd]" h] matcher_glob [of pattern 0 h]
    by (simp add: RegExp_test_def)
  then have "array_some (RegExp_test host_test
          (Modelled (seq_of (RStart # glob_terms pattern @ [REnd])))) held =
        array_some (glob_match notLineTerminator unescaped pattern) held"
    by (simp add: array_some_set)
  then show ?thesis
    using assms(1) RegExp_new_literal [OF assms(2), of host_new]
    by (simp add: hasPermissionPattern_def hasPermissionPattern_with_def)
qed

lemma glob_match_single:
  "p \<noteq> cu CHR ''*'' \<Longrightarrow>
   glob_match wild single (p # ps) s =
     (case s of [] \<Rightarrow> False | d # rest \<Rightarrow> single p d \<and> glob_match wild single ps rest)"
  by (cases s) auto

lemma glob_match_prefix:
  "cu CHR ''*'' \<notin> set lit \<Longrightarrow> cu CHR ''.'' \<notin> set lit \<Longrightarrow>
   glob_match wild unescaped (lit @ ps) s =
     (prefix lit s \<and> glob_match wild unescaped ps (drop (length lit) s))"
proof (induction lit arbitrary: s)
  case Nil
  show ?case by simp
next
  case (Cons c lit)
  then show ?case by (cases s) (auto simp: glob_match_single unescaped_other)
qed

lemma glob_match_star: "glob_match wild single [cu CHR ''*''] s = list_all wild s"
  by (induction s) auto

lemma glob_users_star:
  "glob_match wild unescaped (js ''users:*'') h =
     (prefix (js ''users:'') h \<and> list_all wild (drop 6 h))"
proof -
  have "cu CHR ''*'' \<notin> set (js ''users:'')" "cu CHR ''.'' \<notin> set (js ''users:'')" by simp_all
  from glob_match_prefix [OF this, of wild "[cu CHR ''*'']" h] show ?thesis
    by (simp add: glob_match_star eval_nat_numeral)
qed

lemma hasPermissionPattern_with_set:
  "hasPermissionPattern_with new_RegExp test held pattern =
     (if cu CHR ''*'' \<in> set pattern then
        (case new_RegExp (js ''^'' @ replace_stars pattern @ js ''$'') of
           Inl e \<Rightarrow> Inl e
         | Inr regex \<Rightarrow> Inr (\<exists>h \<in> set held. test regex h))
      else Inr (pattern \<in> set held))"
  by (simp add: hasPermissionPattern_with_def string_includes_star array_some_set
      array_includes_set split: sum.splits)

subsection \<open>The bound of the quantifier loop is never reached\<close>

lemma follows_refl: "follows x x"
  by (simp add: follows_def)

lemma follows_trans: "follows x y \<Longrightarrow> follows y z \<Longrightarrow> follows x z"
  by (simp add: follows_def)

lemma repeat_matcher_cong:
  assumes m: "\<And>x c c'. (\<And>y. follows x y \<Longrightarrow> c y = c' y) \<Longrightarrow> m x c = m x c'"
  shows "(\<And>y. follows x y \<Longrightarrow> c y = c' y) \<Longrightarrow>
    repeat_matcher m n lo hi x c = repeat_matcher m n lo hi x c'"
proof (induction n arbitrary: x lo hi)
  case 0
  then show ?case by (simp add: follows_refl)
next
  case (Suc n)
  have later: "repeat_matcher m n lo' hi' y c = repeat_matcher m n lo' hi' y c'"
    if "follows x y" for y lo' hi'
    by (rule Suc.IH) (rule Suc.prems, erule follows_trans [OF that])
  have "m x (\<lambda>y. repeat_matcher m n (lo - 1) (map_option (\<lambda>k. k - 1) hi) y c) =
        m x (\<lambda>y. repeat_matcher m n (lo - 1) (map_option (\<lambda>k. k - 1) hi) y c')"
    by (rule m) (rule later)
  moreover have "m x (\<lambda>y. if fst y = fst x then False
                         else repeat_matcher m n 0 (map_option (\<lambda>k. k - 1) hi) y c) =
        m x (\<lambda>y. if fst y = fst x then False
                         else repeat_matcher m n 0 (map_option (\<lambda>k. k - 1) hi) y c')"
    by (rule m) (simp add: later)
  moreover have "c x = c' x" by (rule Suc.prems) (rule follows_refl)
  ultimately show ?case by simp
qed

lemma matcher_cong:
  "(\<And>y. follows x y \<Longrightarrow> c y = c' y) \<Longrightarrow> matcher r x c = matcher r x c'"
proof (induction r arbitrary: x c c')
  case REmpty
  then show ?case by (simp add: follows_refl)
next
  case (RChar ch)
  have "c (Suc (fst x), rest) = c' (Suc (fst x), rest)" if "snd x = d # rest" for d rest
    by (rule RChar) (simp add: follows_def that)
  then show ?case by (simp split: list.splits)
next
  case RDot
  have "c (Suc (fst x), rest) = c' (Suc (fst x), rest)" if "snd x = d # rest" for d rest
    by (rule RDot) (simp add: follows_def that)
  then show ?case by (simp split: list.splits)
next
  case RStart
  then show ?case by (simp add: follows_refl)
next
  case REnd
  then show ?case by (simp add: follows_refl)
next
  case (RSeq r1 r2)
  have "matcher r1 x (\<lambda>y. matcher r2 y c) = matcher r1 x (\<lambda>y. matcher r2 y c')"
  proof (rule RSeq.IH(1))
    fix y assume xy: "follows x y"
    show "matcher r2 y c = matcher r2 y c'"
      by (rule RSeq.IH(2)) (rule RSeq.prems, erule follows_trans [OF xy])
  qed
  then show ?case by simp
next
  case (RAlt r1 r2)
  have "matcher r1 x c = matcher r1 x c'" by (rule RAlt.IH(1)) (rule RAlt.prems)
  moreover have "matcher r2 x c = matcher r2 x c'" by (rule RAlt.IH(2)) (rule RAlt.prems)
  ultimately show ?case by simp
next
  case (RRepeat r lo hi)
  have "repeat_matcher (matcher r) n lo hi x c = repeat_matcher (matcher r) n lo hi x c'" for n
    by (rule repeat_matcher_cong) (rule RRepeat.IH, assumption, rule RRepeat.prems)
  then show ?case by (simp only: matcher.simps)
qed

lemma repeat_matcher_at_end:
  assumes "lo + length (snd x) = 0"
  shows "repeat_matcher (matcher r) (Suc n) lo hi x c = repeat_matcher (matcher r) (Suc n') lo hi x c"
proof -
  from assms have lo: "lo = 0" and len: "length (snd x) = 0" by simp_all
  have "matcher r x (\<lambda>y. if fst y = fst x then False
            else repeat_matcher (matcher r) n 0 (map_option (\<lambda>k. k - 1) hi) y c) =
        matcher r x (\<lambda>y. if fst y = fst x then False
            else repeat_matcher (matcher r) n' 0 (map_option (\<lambda>k. k - 1) hi) y c)"
  proof (rule matcher_cong)
    fix y assume "follows x y"
    with len have "fst y = fst x" by (auto simp: follows_def)
    then show "(if fst y = fst x then False
            else repeat_matcher (matcher r) n 0 (map_option (\<lambda>k. k - 1) hi) y c) =
        (if fst y = fst x then False
            else repeat_matcher (matcher r) n' 0 (map_option (\<lambda>k. k - 1) hi) y c)"
      by simp
  qed
  then show ?thesis unfolding lo by (simp only: repeat_matcher.simps(2) simp_thms if_False)
qed

lemma repeat_matcher_bound:
  "lo + length (snd x) \<le> n \<Longrightarrow> lo + length (snd x) \<le> n' \<Longrightarrow>
   repeat_matcher (matcher r) (Suc n) lo hi x c = repeat_matcher (matcher r) (Suc n') lo hi x c"
proof (induction n arbitrary: n' x lo hi)
  case 0
  then have "lo + length (snd x) = 0" by simp
  then show ?case by (rule repeat_matcher_at_end)
next
  case (Suc n)
  show ?case
  proof (cases n')
    case 0
    with Suc.prems have "lo + length (snd x) = 0" by simp
    then show ?thesis by (rule repeat_matcher_at_end)
  next
    case k: (Suc k)
    have deeper: "repeat_matcher (matcher r) (Suc n) lo' hi' y c =
        repeat_matcher (matcher r) (Suc k) lo' hi' y c"
      if "lo' + length (snd y) \<le> n" "lo' + length (snd y) \<le> k" for lo' hi' y
      using that by (rule Suc.IH)
    have first: "matcher r x (\<lambda>y. repeat_matcher (matcher r) (Suc n) (lo - 1)
              (map_option (\<lambda>k. k - 1) hi) y c) =
          matcher r x (\<lambda>y. repeat_matcher (matcher r) n' (lo - 1)
              (map_option (\<lambda>k. k - 1) hi) y c)" if "lo \<noteq> 0"
    proof (rule matcher_cong)
      fix y assume "follows x y"
      then have "length (snd y) \<le> length (snd x)" by (simp add: follows_def)
      with Suc.prems k that have "lo - 1 + length (snd y) \<le> n" "lo - 1 + length (snd y) \<le> k"
        by simp_all
      then show "repeat_matcher (matcher r) (Suc n) (lo - 1) (map_option (\<lambda>k. k - 1) hi) y c =
          repeat_matcher (matcher r) n' (lo - 1) (map_option (\<lambda>k. k - 1) hi) y c"
        unfolding k by (rule deeper)
    qed
    have second: "matcher r x (\<lambda>y. if fst y = fst x then False
              else repeat_matcher (matcher r) (Suc n) 0 (map_option (\<lambda>k. k - 1) hi) y c) =
          matcher r x (\<lambda>y. if fst y = fst x then False
              else repeat_matcher (matcher r) n' 0 (map_option (\<lambda>k. k - 1) hi) y c)"
    proof (rule matcher_cong)
      fix y assume xy: "follows x y"
      show "(if fst y = fst x then False
              else repeat_matcher (matcher r) (Suc n) 0 (map_option (\<lambda>k. k - 1) hi) y c) =
          (if fst y = fst x then False
              else repeat_matcher (matcher r) n' 0 (map_option (\<lambda>k. k - 1) hi) y c)"
      proof (cases "fst y = fst x")
        case True
        then show ?thesis by simp
      next
        case False
        with xy have "length (snd y) < length (snd x)" by (auto simp: follows_def)
        with Suc.prems k have "0 + length (snd y) \<le> n" "0 + length (snd y) \<le> k" by simp_all
        then have "repeat_matcher (matcher r) (Suc n) 0 (map_option (\<lambda>k. k - 1) hi) y c =
            repeat_matcher (matcher r) (Suc k) 0 (map_option (\<lambda>k. k - 1) hi) y c"
          by (rule deeper)
        with False k show ?thesis by simp
      qed
    qed
    show ?thesis
    proof (cases "lo = 0")
      case True
      have "repeat_matcher (matcher r) (Suc (Suc n)) 0 hi x c =
          repeat_matcher (matcher r) (Suc n') 0 hi x c"
        by (simp only: repeat_matcher.simps(2) [of _ "Suc n"] repeat_matcher.simps(2) [of _ n']
            second simp_thms if_False)
      with True show ?thesis by simp
    next
      case False
      from first [OF False] False show ?thesis
        by (simp only: repeat_matcher.simps(2) [of _ "Suc n"] repeat_matcher.simps(2) [of _ n']
            simp_thms if_True if_False)
    qed
  qed
qed

lemma matcher_RRepeat_bound:
  "lo + length (snd x) \<le> n \<Longrightarrow>
   matcher (RRepeat r lo hi) x c = repeat_matcher (matcher r) (Suc n) lo hi x c"
  using repeat_matcher_bound [of lo x "lo + length (snd x)" n r hi c] by simp

subsection \<open>What an unescaped pattern can do\<close>

text \<open>
  The characters of the pattern reach the constructor as they are: a quantifier with
  nothing to repeat makes the function throw, whatever is held; a \<open>|\<close> in the pattern
  leaves each anchor on one alternative only; braces after a character repeat it; and a
  character class is for the engine of the host to read.
\<close>

lemma hasPermissionPattern_throws_example:
  "hasPermissionPattern host_new host_test held (js ''+*'') = Inl SyntaxError"
  by (simp add: hasPermissionPattern_def hasPermissionPattern_with_def RegExp_new_def
      add_term_def empty_frame_def)

lemma hasPermissionPattern_alternative_example:
  "hasPermissionPattern host_new host_test [js ''xusers:a''] (js ''a|users:*'') = Inr True"
  by (simp add: hasPermissionPattern_def hasPermissionPattern_with_def RegExp_new_def
      RegExp_test_def add_term_def quantify_def disjunction_def seq_of_def empty_frame_def
      next_alternative_def isLineTerminator_def)

lemma hasPermissionPattern_braces_example:
  "hasPermissionPattern host_new host_test [js ''aab''] (js ''a{2}b*'') = Inr True"
  by (simp add: hasPermissionPattern_def hasPermissionPattern_with_def RegExp_new_def
      RegExp_test_def add_term_def quantify_def disjunction_def seq_of_def empty_frame_def
      braced_quantifier_def next_is_def isDecimalDigit_def MV_def Let_def isLineTerminator_def)

lemma hasPermissionPattern_bracket_example:
  "hasPermissionPattern host_new host_test [js ''a]''] (js ''a]*'') = Inr True"
  by (simp add: hasPermissionPattern_def hasPermissionPattern_with_def RegExp_new_def
      RegExp_test_def add_term_def quantify_def disjunction_def seq_of_def empty_frame_def
      isLineTerminator_def)

lemma hasPermissionPattern_host_example:
  "hasPermissionPattern host_new host_test held (js ''[ab]*'') =
     (case host_new (js ''^[ab].*$'') of
        Inl e \<Rightarrow> Inl e
      | Inr r \<Rightarrow> Inr (\<exists>h \<in> set held. host_test r h))"
  by (simp add: hasPermissionPattern_def hasPermissionPattern_with_def RegExp_new_def
      RegExp_test_def array_some_set split: sum.splits)

subsection \<open>Wildcard patterns against the specification\<close>

lemma replace_stars_concat:
  "replace_stars pattern =
     concat (map (\<lambda>c. if c = cu CHR ''*'' then js ''.*'' else [c]) pattern)"
  by (induction pattern) simp_all

text \<open>
  The two inputs of the counterexamples below are within the modelled syntax: the
  results are the same on every host.
\<close>

lemma hasPermissionPattern_unescaped_dot_any_host:
  "hasPermissionPattern host_new host_test [js ''users:x''] (js ''users.*'') = Inr True"
  by (simp add: hasPermissionPattern_def hasPermissionPattern_with_def RegExp_new_def
      RegExp_test_def add_term_def quantify_def disjunction_def seq_of_def empty_frame_def
      isLineTerminator_def)

lemma hasPermissionPattern_line_terminator_any_host:
  "hasPermissionPattern host_new host_test [js ''users:view'' @ [cu CHR 0x0A]] (js ''users:*'') =
     Inr False"
  "hasPermissionPattern host_new host_test [js ''users:'' @ [0x2028]] (js ''users:*'') =
     Inr False"
  by (simp_all add: hasPermissionPattern_def hasPermissionPattern_with_def RegExp_new_def
      RegExp_test_def add_term_def quantify_def disjunction_def seq_of_def empty_frame_def
      isLineTerminator_def)

text \<open>
  C1 as stated does not hold: hasPermissionPattern does not escape the characters of
  the pattern that have a meaning in a regular expression. The pattern "users.*" is
  compiled from the source "^users..*$", where the dot of the pattern matches any
  character, so the held code "users:x" matches, although it does not match the
  pattern with the dot taken literally.
\<close>

theorem hasPermissionPattern_unescaped_dot_counterexample:
  "string_includes (js ''users.*'') (js ''*'') \<and>
   replace_stars (js ''users.*'') = js ''users..*'' \<and>
   hasPermissionPattern plain_host_new plain_host_test [js ''users:x''] (js ''users.*'') =
     Inr True \<and>
   \<not> glob_match (\<lambda>c. True) literally (js ''users.*'') (js ''users:x'')"
  by (simp add: hasPermissionPattern_def hasPermissionPattern_with_def RegExp_new_def
      RegExp_test_def add_term_def quantify_def disjunction_def seq_of_def empty_frame_def
      isLineTerminator_def literally_def)

text \<open>
  C1, amended: for every held permission list and every pattern that contains at least
  one wildcard marker, hasPermissionPattern compiles the source made of ^, the pattern
  with every wildcard replaced by .* and every other character copied as it is (none
  is escaped), and $; it throws the SyntaxError of the constructor when that source is
  not a regular expression, and returns true exactly when the compiled expression
  matches some element of held. When no character of the pattern is one of
  ^ $ + ? ( ) [ | or the backslash and no { of it starts a quantifier {n}, {n,} or
  {n,m}, the source compiles to a matcher anchored at both ends, and the function
  returns true exactly when some element of held matches the whole pattern, where a
  wildcard stands for any substring without a line terminator (the empty one too), a
  dot of the pattern for any one character that is not a line terminator, and every
  other character for itself.
\<close>

theorem hasPermissionPattern_wildcard_glob:
  assumes "string_includes pattern (js ''*'')"
  shows "replace_stars pattern =
           concat (map (\<lambda>c. if c = cu CHR ''*'' then js ''.*'' else [c]) pattern) \<and>
         hasPermissionPattern host_new host_test held pattern =
           (case RegExp_new host_new (js ''^'' @ replace_stars pattern @ js ''$'') of
              Inl e \<Rightarrow> Inl e
            | Inr regex \<Rightarrow> Inr (\<exists>h \<in> set held. RegExp_test host_test regex h)) \<and>
         (literal_pattern pattern \<longrightarrow>
            RegExp_new host_new (js ''^'' @ replace_stars pattern @ js ''$'') =
              Inr (Modelled (seq_of (RStart # glob_terms pattern @ [REnd]))) \<and>
            hasPermissionPattern host_new host_test held pattern =
              Inr (\<exists>h \<in> set held. glob_match notLineTerminator unescaped pattern h))"
proof -
  have general: "hasPermissionPattern host_new host_test held pattern =
      (case RegExp_new host_new (js ''^'' @ replace_stars pattern @ js ''$'') of
         Inl e \<Rightarrow> Inl e
       | Inr regex \<Rightarrow> Inr (\<exists>h \<in> set held. RegExp_test host_test regex h))"
    using assms
    by (simp add: hasPermissionPattern_def hasPermissionPattern_with_set string_includes_star)
  have literal: "hasPermissionPattern host_new host_test held pattern =
      Inr (\<exists>h \<in> set held. glob_match notLineTerminator unescaped pattern h)"
    if "literal_pattern pattern"
    using hasPermissionPattern_literal [OF assms that, of host_new host_test held]
    by (simp add: array_some_set)
  from general literal RegExp_new_literal [of pattern host_new] replace_stars_concat [of pattern]
  show ?thesis by blast
qed

theorem hasPermissionPattern_wildcard_glob_witness:
  "string_includes (js ''{users}.*'') (js ''*'') \<and> literal_pattern (js ''{users}.*'') \<and>
   replace_stars (js ''{users}.*'') = js ''{users}..*'' \<and>
   hasPermissionPattern plain_host_new plain_host_test
     [js ''roles:view'', js ''{users}:edit''] (js ''{users}.*'') = Inr True \<and>
   hasPermissionPattern plain_host_new plain_host_test
     [js ''roles:view'', js ''{users}''] (js ''{users}.*'') = Inr False"
proof -
  have star: "string_includes (js ''{users}.*'') (js ''*'')" by simp
  have lit: "literal_pattern (js ''{users}.*'')"
    by (simp add: literal_pattern_def literal_character_def braced_quantifier_def Let_def
        isDecimalDigit_def)
  have rep: "replace_stars (js ''{users}.*'') = js ''{users}..*''" by simp
  from hasPermissionPattern_wildcard_glob [OF star, of plain_host_new plain_host_test
      "[js ''roles:view'', js ''{users}:edit'']"] lit
  have "hasPermissionPattern plain_host_new plain_host_test
      [js ''roles:view'', js ''{users}:edit''] (js ''{users}.*'') =
      Inr (\<exists>h \<in> set [js ''roles:view'', js ''{users}:edit''].
        glob_match notLineTerminator unescaped (js ''{users}.*'') h)"
    by blast
  then have yes: "hasPermissionPattern plain_host_new plain_host_test
      [js ''roles:view'', js ''{users}:edit''] (js ''{users}.*'') = Inr True"
    by (simp add: notLineTerminator_def isLineTerminator_def unescaped_def)
  from hasPermissionPattern_wildcard_glob [OF star, of plain_host_new plain_host_test
      "[js ''roles:view'', js ''{users}'']"] lit
  have "hasPermissionPattern plain_host_new plain_host_test
      [js ''roles:view'', js ''{users}''] (js ''{users}.*'') =
      Inr (\<exists>h \<in> set [js ''roles:view'', js ''{users}''].
        glob_match notLineTerminator unescaped (js ''{users}.*'') h)"
    by blast
  then have no: "hasPermissionPattern plain_host_new plain_host_test
      [js ''roles:view'', js ''{users}''] (js ''{users}.*'') = Inr False"
    by (simp add: notLineTerminator_def isLineTerminator_def unescaped_def)
  from star lit rep yes no show ?thesis by (intro conjI)
qed

text \<open>
  C4 as stated does not hold for every held list: the wildcard is compiled to a dot,
  which does not match a line terminator, so a held code that starts with "users:" and
  goes on with a line feed, or with the line separator U+2028, is not matched.
\<close>

theorem hasPermissionPattern_users_star_counterexample:
  "prefix (js ''users:'') (js ''users:view'' @ [cu CHR 0x0A]) \<and>
   hasPermissionPattern plain_host_new plain_host_test
     [js ''users:view'' @ [cu CHR 0x0A]] (js ''users:*'') = Inr False \<and>
   prefix (js ''users:'') (js ''users:'' @ [0x2028]) \<and>
   hasPermissionPattern plain_host_new plain_host_test
     [js ''users:'' @ [0x2028]] (js ''users:*'') = Inr False"
  by (simp add: hasPermissionPattern_def hasPermissionPattern_with_def RegExp_new_def
      RegExp_test_def add_term_def quantify_def disjunction_def seq_of_def empty_frame_def
      isLineTerminator_def)

text \<open>
  C4, amended: for every held permission list, hasPermissionPattern(held, "users:*")
  returns true exactly when held contains a code that starts with "users:" and has no
  line terminator (line feed, carriage return, U+2028, U+2029) after that prefix; so
  for a held list whose codes contain no line terminator, it returns true exactly when
  held contains a code starting with "users:".
\<close>

theorem hasPermissionPattern_users_star:
  "hasPermissionPattern host_new host_test held (js ''users:*'') =
     Inr (\<exists>h \<in> set held. prefix (js ''users:'') h \<and> list_all notLineTerminator (drop 6 h)) \<and>
   (list_all (list_all notLineTerminator) held \<longrightarrow>
     hasPermissionPattern host_new host_test held (js ''users:*'') =
       Inr (\<exists>h \<in> set held. prefix (js ''users:'') h))"
proof -
  have star: "string_includes (js ''users:*'') (js ''*'')" by simp
  have lit: "literal_pattern (js ''users:*'')"
    by (simp add: literal_pattern_def literal_character_def)
  have first: "hasPermissionPattern host_new host_test held (js ''users:*'') =
     Inr (\<exists>h \<in> set held. prefix (js ''users:'') h \<and> list_all notLineTerminator (drop 6 h))"
    using hasPermissionPattern_literal [OF star lit, of host_new host_test held]
    by (simp only: array_some_set glob_users_star)
  have "list_all notLineTerminator (drop 6 h)"
    if "list_all (list_all notLineTerminator) held" and "h \<in> set held" for h
    using that by (auto simp: list_all_iff dest: in_set_dropD)
  with first show ?thesis by auto
qed

theorem hasPermissionPattern_users_star_witness:
  "list_all (list_all notLineTerminator) [js ''roles:view'', js ''users:edit''] \<and>
   hasPermissionPattern plain_host_new plain_host_test
     [js ''roles:view'', js ''users:edit''] (js ''users:*'') = Inr True \<and>
   hasPermissionPattern plain_host_new plain_host_test
     [js ''roles:view'', js ''xusers:edit''] (js ''users:*'') = Inr False"
  using hasPermissionPattern_users_star [of plain_host_new plain_host_test
      "[js ''roles:view'', js ''users:edit'']"]
    hasPermissionPattern_users_star [of plain_host_new plain_host_test
      "[js ''roles:view'', js ''xusers:edit'']"]
  by (simp add: notLineTerminator_def isLineTerminator_def)

subsection \<open>The held permissions as a set\<close>

text \<open>
  C8: the predicates respect the set semantics of the held permissions: for two held
  lists with the same set of codes (differing in order or in duplicates only),
  hasPermission, hasAnyPermission, hasAllPermissions and hasPermissionPattern give the
  same result, for every query argument. For hasPermissionPattern this holds for every
  pattern whatever the regular expression engine does with it (any constructor and any
  test function), an exception of the constructor included.
\<close>

theorem predicates_set_semantics:
  assumes "set held1 = set held2"
  shows "hasPermission held1 code = hasPermission held2 code \<and>
         hasAnyPermission held1 codes = hasAnyPermission held2 codes \<and>
         hasAllPermissions held1 codes = hasAllPermissions held2 codes \<and>
         hasPermissionPattern host_new host_test held1 pattern =
           hasPermissionPattern host_new host_test held2 pattern \<and>
         hasPermissionPattern_with new_RegExp test held1 pattern =
           hasPermissionPattern_with new_RegExp test held2 pattern"
  by (simp only: hasPermission_def hasAnyPermission_def hasAllPermissions_def
      hasPermissionPattern_def hasPermissionPattern_with_set array_includes_set
      array_some_set array_every_set assms simp_thms)

theorem predicates_set_semantics_witness:
  "set [js ''users:view'', js ''roles:edit'', js ''users:view''] =
     set [js ''roles:edit'', js ''users:view''] \<and>
   hasPermission [js ''users:view'', js ''roles:edit'', js ''users:view''] (js ''users:view'') =
     hasPermission [js ''roles:edit'', js ''users:view''] (js ''users:view'') \<and>
   hasAnyPermission [js ''users:view'', js ''roles:edit'', js ''users:view'']
       [js ''a:b'', js ''roles:edit''] =
     hasAnyPermission [js ''roles:edit'', js ''users:view''] [js ''a:b'', js ''roles:edit''] \<and>
   hasAllPermissions [js ''users:view'', js ''roles:edit'', js ''users:view'']
       [js ''a:b'', js ''roles:edit''] =
     hasAllPermissions [js ''roles:edit'', js ''users:view''] [js ''a:b'', js ''roles:edit''] \<and>
   hasPermissionPattern plain_host_new plain_host_test
       [js ''users:view'', js ''roles:edit'', js ''users:view''] (js ''users:*'') =
     hasPermissionPattern plain_host_new plain_host_test
       [js ''roles:edit'', js ''users:view''] (js ''users:*'')"
  using predicates_set_semantics
    [of "[js ''users:view'', js ''roles:edit'', js ''users:view'']"
        "[js ''roles:edit'', js ''users:view'']"
        "js ''users:view''" "[js ''a:b'', js ''roles:edit'']"
        plain_host_new plain_host_test "js ''users:*''"
        "RegExp_new plain_host_new" "RegExp_test plain_host_test"]
  by auto

text \<open>
  C10: the predicates are monotone in the held set: when every element of one held list
  is an element of another, every check among hasPermission, hasAnyPermission,
  hasAllPermissions and hasPermissionPattern that returns true on the first returns
  true on the second, for every query argument (and, for hasPermissionPattern, whatever
  the regular expression engine does with the pattern).
\<close>

theorem predicates_monotone:
  assumes "set held1 \<subseteq> set held2"
  shows "(hasPermission held1 code \<longrightarrow> hasPermission held2 code) \<and>
         (hasAnyPermission held1 codes \<longrightarrow> hasAnyPermission held2 codes) \<and>
         (hasAllPermissions held1 codes \<longrightarrow> hasAllPermissions held2 codes) \<and>
         (hasPermissionPattern host_new host_test held1 pattern = Inr True \<longrightarrow>
            hasPermissionPattern host_new host_test held2 pattern = Inr True) \<and>
         (hasPermissionPattern_with new_RegExp test held1 pattern = Inr True \<longrightarrow>
            hasPermissionPattern_with new_RegExp test held2 pattern = Inr True)"
  using assms
  by (auto simp: hasPermission_def hasAnyPermission_def hasAllPermissions_def
      hasPermissionPattern_def hasPermissionPattern_with_set array_includes_set
      array_some_set array_every_set split: sum.splits if_splits)

theorem predicates_monotone_witness:
  "set [js ''users:view''] \<subseteq> set [js ''roles:edit'', js ''users:view''] \<and>
   hasPermission [js ''users:view''] (js ''users:view'') \<and>
   hasPermission [js ''roles:edit'', js ''users:view''] (js ''users:view'') \<and>
   hasAnyPermission [js ''users:view''] [js ''users:view''] \<and>
   hasAnyPermission [js ''roles:edit'', js ''users:view''] [js ''users:view''] \<and>
   hasAllPermissions [js ''users:view''] [js ''users:view''] \<and>
   hasAllPermissions [js ''roles:edit'', js ''users:view''] [js ''users:view''] \<and>
   hasPermissionPattern plain_host_new plain_host_test [js ''users:view''] (js ''users:*'') =
     Inr True \<and>
   hasPermissionPattern plain_host_new plain_host_test
     [js ''roles:edit'', js ''users:view''] (js ''users:*'') = Inr True"
proof -
  have sub: "set [js ''users:view''] \<subseteq> set [js ''roles:edit'', js ''users:view'']" by simp
  have a: "hasPermission [js ''users:view''] (js ''users:view'')"
    by (simp add: hasPermission_def)
  have b: "hasAnyPermission [js ''users:view''] [js ''users:view'']"
    by (simp add: hasAnyPermission_def)
  have c: "hasAllPermissions [js ''users:view''] [js ''users:view'']"
    by (simp add: hasAllPermissions_def)
  have d: "hasPermissionPattern plain_host_new plain_host_test [js ''users:view'']
      (js ''users:*'') = Inr True"
    by (simp add: hasPermissionPattern_def hasPermissionPattern_with_def RegExp_new_def
      RegExp_test_def add_term_def quantify_def disjunction_def seq_of_def empty_frame_def
      isLineTerminator_def)
  from predicates_monotone [OF sub, of "js ''users:view''" "[js ''users:view'']"
      plain_host_new plain_host_test "js ''users:*''"
      "RegExp_new plain_host_new" "RegExp_test plain_host_test"] a b c d sub
  show ?thesis by simp
qed

end
